theory Spec2Isabelle
  imports Complex_Main "HOL-Library.Sublist"
begin

section \<open>Python values used by the validator and the classifier\<close>

text \<open>
  The two modules \<^verbatim>\<open>utils.py\<close> and \<^verbatim>\<open>scripts/utils.py\<close> hold the same code (the second
  adds docstrings); one embedding serves both.

  A Python \<^verbatim>\<open>str\<close> is modelled as a \<^typ>\<open>string\<close> whose characters are the code points
  below 256; texts with other code points are outside the model. Exceptions are values:
  a function that can raise returns \<open>py_error + 'a\<close>.
\<close>

datatype py_error = ZeroDivisionError | KeyError

text \<open>\<^verbatim>\<open>str.lower()\<close> on code points below 256: the ASCII capitals and the Latin-1 capitals
  (192..222 without the multiplication sign 215) move up by 32.\<close>

definition lower_char :: "char \<Rightarrow> char" where
  "lower_char c =
     (let n = (of_char c :: nat)
      in if (65 \<le> n \<and> n \<le> 90) \<or> (192 \<le> n \<and> n \<le> 222 \<and> n \<noteq> 215)
         then char_of (n + 32) else c)"

definition lower :: "string \<Rightarrow> string" where
  "lower s = map lower_char s"

text \<open>The class \<^verbatim>\<open>\w\<close> of a \<^verbatim>\<open>str\<close> pattern (alphanumeric code points and the underscore) and
  \<^verbatim>\<open>str.isspace()\<close> of one character, both on code points below 256.\<close>

definition re_w :: "char \<Rightarrow> bool" where
  "re_w c =
     (let n = (of_char c :: nat)
      in (48 \<le> n \<and> n \<le> 57) \<or> (65 \<le> n \<and> n \<le> 90) \<or> n = 95 \<or> (97 \<le> n \<and> n \<le> 122)
         \<or> n = 170 \<or> n = 178 \<or> n = 179 \<or> n = 181 \<or> n = 185 \<or> n = 186
         \<or> (188 \<le> n \<and> n \<le> 190) \<or> (192 \<le> n \<and> n \<le> 214) \<or> (216 \<le> n \<and> n \<le> 246)
         \<or> 248 \<le> n)"

definition isspace :: "char \<Rightarrow> bool" where
  "isspace c =
     (let n = (of_char c :: nat)
      in (9 \<le> n \<and> n \<le> 13) \<or> (28 \<le> n \<and> n \<le> 32) \<or> n = 133 \<or> n = 160)"

text \<open>A string that is empty or holds whitespace only.\<close>

definition blank :: "string \<Rightarrow> bool" where
  "blank s = list_all isspace s"

text \<open>\<^verbatim>\<open>a / b\<close> on two \<^verbatim>\<open>int\<close>s raises on a zero divisor. The quotient is kept exact (a
  rational): Python rounds it to a double, and the comparison with the double \<^verbatim>\<open>0.6\<close>
  made below agrees with the exact comparison with 3/5 for every token count below
  \<open>10\<^sup>1\<^sup>5\<close>.\<close>

definition truediv :: "nat \<Rightarrow> nat \<Rightarrow> py_error + rat" where
  "truediv a b = (if b = 0 then Inl ZeroDivisionError else Inr (of_nat a / of_nat b))"

section \<open>Sequence patterns with quantifiers\<close>

text \<open>
  Both pattern facilities the code uses, \<^verbatim>\<open>re\<close> on characters and spaCy's \<^verbatim>\<open>Matcher\<close> on
  tokens, match a sequence of per-position constraints, each with a quantifier:
  exactly one (the default), \<^verbatim>\<open>?\<close>, \<^verbatim>\<open>*\<close> or \<^verbatim>\<open>+\<close>. \<open>match_lens sat p xs\<close> lists the lengths
  of all prefixes of \<open>xs\<close> that the pattern \<open>p\<close> matches, \<open>sat c x\<close> deciding whether the
  element \<open>x\<close> satisfies the constraint \<open>c\<close>.
\<close>

datatype op = Exactly1 | ZeroOrOne | ZeroOrMore | OneOrMore

fun match_lens :: "('c \<Rightarrow> 'a \<Rightarrow> bool) \<Rightarrow> ('c \<times> op) list \<Rightarrow> 'a list \<Rightarrow> nat list" where
  "match_lens sat [] xs = [0]"
| "match_lens sat ((c, Exactly1) # p) [] = []"
| "match_lens sat ((c, Exactly1) # p) (x # xs) =
     (if sat c x then map Suc (match_lens sat p xs) else [])"
| "match_lens sat ((c, ZeroOrOne) # p) [] = match_lens sat p []"
| "match_lens sat ((c, ZeroOrOne) # p) (x # xs) =
     match_lens sat p (x # xs) @ (if sat c x then map Suc (match_lens sat p xs) else [])"
| "match_lens sat ((c, ZeroOrMore) # p) [] = match_lens sat p []"
| "match_lens sat ((c, ZeroOrMore) # p) (x # xs) =
     match_lens sat p (x # xs)
     @ (if sat c x then map Suc (match_lens sat ((c, ZeroOrMore) # p) xs) else [])"
| "match_lens sat ((c, OneOrMore) # p) [] = []"
| "match_lens sat ((c, OneOrMore) # p) (x # xs) =
     (if sat c x then map Suc (match_lens sat ((c, ZeroOrMore) # p) xs) else [])"

subsection \<open>Regular expressions on the raw text\<close>

datatype re_atom = Lit char | WordChar

fun re_sat :: "re_atom \<Rightarrow> char \<Rightarrow> bool" where
  "re_sat (Lit a) c = (c = a)"
| "re_sat WordChar c = re_w c"

type_synonym regex = "(re_atom \<times> op) list"

text \<open>\<^verbatim>\<open>pattern.search(text)\<close>, read for its truth value: the start positions are tried from
  left to right, the position after the last character included.\<close>

fun re_search :: "regex \<Rightarrow> string \<Rightarrow> bool" where
  "re_search p [] = (match_lens re_sat p [] \<noteq> [])"
| "re_search p (c # cs) = (match_lens re_sat p (c # cs) \<noteq> [] \<or> re_search p cs)"

text \<open>\<^verbatim>\<open>user_pattern = re.compile(r"u/\w+")\<close> and \<^verbatim>\<open>subreddit_pattern = re.compile(r"r/\w+")\<close>.\<close>

definition user_pattern :: regex where
  "user_pattern = [(Lit CHR ''u'', Exactly1), (Lit CHR ''/'', Exactly1), (WordChar, OneOrMore)]"

definition subreddit_pattern :: regex where
  "subreddit_pattern = [(Lit CHR ''r'', Exactly1), (Lit CHR ''/'', Exactly1), (WordChar, OneOrMore)]"

section \<open>The annotated text\<close>

text \<open>
  \<^verbatim>\<open>nlp = spacy.load("en_core_web_lg")\<close> is the annotator, a library the repository calls
  and does not implement: the model takes it as a parameter, a function from the text to
  its \<open>doc\<close>. A token carries the attributes the code reads: \<^verbatim>\<open>text\<close>, \<^verbatim>\<open>pos_\<close>, \<^verbatim>\<open>tag_\<close>,
  \<^verbatim>\<open>dep_\<close>, \<^verbatim>\<open>morph\<close> (its features, as \<^verbatim>\<open>Field=Value\<close> strings), \<^verbatim>\<open>lemma_\<close>, \<^verbatim>\<open>like_url\<close> and
  \<^verbatim>\<open>is_alpha\<close>. A doc is its tokens (\<^verbatim>\<open>for token in doc\<close>, \<^verbatim>\<open>len(doc)\<close>) and its sentences
  (\<^verbatim>\<open>doc.sents\<close>, each a span of tokens). Nothing is assumed of how the two relate.
\<close>

record token =
  tok_text :: string
  tok_pos :: string
  tok_tag :: string
  tok_dep :: string
  tok_morph :: "string list"
  tok_lemma :: string
  tok_like_url :: bool
  tok_is_alpha :: bool

record doc =
  tokens :: "token list"
  sents :: "token list list"

type_synonym annotator = "string \<Rightarrow> doc"

section \<open>The claim validator\<close>

text \<open>\<^verbatim>\<open>check_root_verb\<close>: two nested loops that return at the first finite root verb.\<close>

fun check_sent :: "token list \<Rightarrow> bool" where
  "check_sent [] = False"
| "check_sent (token # rest) =
     (if tok_dep token = ''ROOT'' \<and> tok_pos token \<in> set [''VERB'', ''AUX'']
      then (if ''VerbForm=Fin'' \<in> set (tok_morph token) then True else check_sent rest)
      else check_sent rest)"

fun check_sents :: "token list list \<Rightarrow> bool" where
  "check_sents [] = False"
| "check_sents (sent # rest) = (if check_sent sent then True else check_sents rest)"

definition check_root_verb :: "doc \<Rightarrow> bool" where
  "check_root_verb d = check_sents (sents d)"

text \<open>The fourth check of \<^verbatim>\<open>is_valid_claim\<close>, its local \<^verbatim>\<open>no_mentions\<close>.\<close>

definition no_mentions :: "string \<Rightarrow> bool" where
  "no_mentions text = (\<not> (re_search user_pattern text \<or> re_search subreddit_pattern text))"

definition is_valid_claim :: "annotator \<Rightarrow> string \<Rightarrow> py_error + bool" where
  "is_valid_claim nlp text =
     (let d = nlp text;
          has_verb = check_root_verb d;
          no_url = (\<not> list_ex tok_like_url (tokens d));
          no_scam = (\<not> list_ex (\<lambda>token. tok_text token \<in> set [''scam'', ''legit'']) (tokens d));
          no_short_claims = (3 \<le> length (tokens d));
          not_more_than_one_intj = (count_list text CHR ''!'' \<le> 1 \<and> length (sents d) = 1);
          alpha_tokens = filter tok_is_alpha (tokens d)
      in case truediv (length alpha_tokens) (max 1 (length (tokens d))) of
           Inl e \<Rightarrow> Inl e
         | Inr frac_alpha \<Rightarrow>
             (let mostly_alpha = (6 / 10 < frac_alpha)
              in Inr (list_all id [has_verb, no_url, no_scam, no_mentions text, no_short_claims,
                                   not_more_than_one_intj, mostly_alpha])))"

section \<open>The token matcher\<close>

text \<open>
  spaCy's \<^verbatim>\<open>Matcher\<close>, as far as the code uses it. A token pattern is a list of
  dictionaries, one per position: each maps token attributes to a required value, to
  \<^verbatim>\<open>{"IN": [...]}\<close> or to \<^verbatim>\<open>{"NOT_IN": [...]}\<close>, all entries of one dictionary holding of the
  same token, and may carry an \<^verbatim>\<open>"OP"\<close>. \<^verbatim>\<open>LOWER\<close> is the lowercased \<^verbatim>\<open>text\<close>, \<^verbatim>\<open>ORTH\<close> the
  verbatim one.
\<close>

datatype attr = ORTH | LOWER | POS | TAG | LEMMA

datatype pred = Is string | IN "string list" | NOT_IN "string list"

fun attr_value :: "attr \<Rightarrow> token \<Rightarrow> string" where
  "attr_value ORTH t = tok_text t"
| "attr_value LOWER t = lower (tok_text t)"
| "attr_value POS t = tok_pos t"
| "attr_value TAG t = tok_tag t"
| "attr_value LEMMA t = tok_lemma t"

fun pred_holds :: "pred \<Rightarrow> string \<Rightarrow> bool" where
  "pred_holds (Is v) x = (x = v)"
| "pred_holds (IN vs) x = (x \<in> set vs)"
| "pred_holds (NOT_IN vs) x = (x \<notin> set vs)"

type_synonym token_spec = "(attr \<times> pred) list"

type_synonym token_pattern = "(token_spec \<times> op) list"

definition token_matches :: "token_spec \<Rightarrow> token \<Rightarrow> bool" where
  "token_matches spec t = list_all (\<lambda>(a, p). pred_holds p (attr_value a t)) spec"

text \<open>
  A matcher holds its rules, each a key and the patterns added under it. The keys live
  in the string store of the vocabulary \<^verbatim>\<open>nlp.vocab\<close>, the one object the calls share:
  \<^verbatim>\<open>matcher.add\<close> interns its key there, a match carries the key's id, and
  \<^verbatim>\<open>doc.vocab.strings[match_id]\<close> reads the key back, raising \<^verbatim>\<open>KeyError\<close> for an id the store
  does not hold. The store is threaded through the calls as a list of strings; an id is
  modelled by the string it stands for (hash collisions are outside the model).
\<close>

type_synonym string_store = "string list"

record matcher =
  rules :: "(string \<times> token_pattern list) list"

definition Matcher_new :: matcher where
  "Matcher_new = \<lparr>rules = []\<rparr>"

definition Matcher_add ::
    "string \<Rightarrow> token_pattern list \<Rightarrow> matcher \<times> string_store \<Rightarrow> matcher \<times> string_store" where
  "Matcher_add key patterns ms =
     (case ms of (m, strings) \<Rightarrow>
        (m\<lparr>rules := rules m @ [(key, patterns)]\<rparr>,
         if key \<in> set strings then strings else strings @ [key]))"

text \<open>All non-empty matches of one pattern in a span, as (start, end) pairs, and the
  matches of all rules, each under its key. The code reads the result only for which
  keys occur in it, so its order and its repetitions are not modelled.\<close>

definition pattern_matches :: "token_pattern \<Rightarrow> token list \<Rightarrow> (nat \<times> nat) list" where
  "pattern_matches p sent =
     concat (map (\<lambda>start. map (\<lambda>n. (start, start + n))
                             (filter (\<lambda>n. 0 < n) (match_lens token_matches p (drop start sent))))
                 [0..<length sent])"

definition Matcher_call :: "matcher \<Rightarrow> token list \<Rightarrow> (string \<times> nat \<times> nat) list" where
  "Matcher_call m sent =
     concat (map (\<lambda>(key, patterns).
                    concat (map (\<lambda>p. map (\<lambda>(start, stop). (key, start, stop))
                                         (pattern_matches p sent)) patterns))
                 (rules m))"

definition strings_get :: "string_store \<Rightarrow> string \<Rightarrow> py_error + string" where
  "strings_get strings match_id = (if match_id \<in> set strings then Inr match_id else Inl KeyError)"

section \<open>The comparison detector\<close>

definition strict_patterns :: "token_pattern list" where
  "strict_patterns =
     [ [([(LOWER, Is ''as'')], Exactly1), ([(POS, Is ''ADV'')], ZeroOrMore),
        ([(POS, Is ''ADJ'')], Exactly1), ([(LOWER, Is ''as'')], Exactly1)],
       [([(TAG, Is ''JJR'')], Exactly1), ([(LOWER, Is ''than'')], Exactly1)],
       [([(TAG, Is ''RBR'')], Exactly1), ([(TAG, Is ''RB'')], ZeroOrMore),
        ([(TAG, IN [''JJ'', ''RB''])], Exactly1), ([(LOWER, Is ''than'')], Exactly1)],
       [([(LOWER, IN [''more'', ''less''])], Exactly1), ([(POS, Is ''NOUN'')], Exactly1),
        ([(LOWER, Is ''than'')], Exactly1)],
       [([(LOWER, IN [''more'', ''less''])], Exactly1), ([(LOWER, Is ''than'')], Exactly1)],
       [([(LEMMA, Is ''compare''), (TAG, Is ''VBN'')], Exactly1), ([(POS, Is ''ADP'')], Exactly1)] ]"

text \<open>The first implicit pattern is the standalone one (\<^verbatim>\<open># Avoiding "most people"\<close>).\<close>

definition standalone_pattern :: token_pattern where
  "standalone_pattern =
     [([(TAG, IN [''JJR'', ''JJS'']), (LOWER, NOT_IN [''most'', ''least''])], Exactly1)]"

definition implicit_patterns :: "token_pattern list" where
  "implicit_patterns =
     [ standalone_pattern,
       [([(TAG, Is ''JJR'')], Exactly1), ([(POS, Is ''NOUN'')], ZeroOrOne)],
       [([(LOWER, IN [''more'', ''less''])], Exactly1), ([(POS, Is ''NOUN'')], Exactly1)],
       [([(LOWER, IN [''more'', ''less''])], Exactly1), ([(POS, Is ''ADV'')], ZeroOrMore),
        ([(POS, Is ''ADJ'')], Exactly1)],
       [([(TAG, Is ''RBS'')], Exactly1), ([(POS, Is ''ADV'')], ZeroOrMore),
        ([(POS, Is ''ADJ'')], Exactly1)] ]"

text \<open>The comprehension \<^verbatim>\<open>[(doc.vocab.strings[match_id], start, end) for ...]\<close>.\<close>

fun resolve_matches ::
    "string_store \<Rightarrow> (string \<times> nat \<times> nat) list \<Rightarrow> py_error + (string \<times> nat \<times> nat) list" where
  "resolve_matches strings [] = Inr []"
| "resolve_matches strings ((match_id, start, stop) # ms) =
     (case strings_get strings match_id of
        Inl e \<Rightarrow> Inl e
      | Inr name \<Rightarrow>
          (case resolve_matches strings ms of
             Inl e \<Rightarrow> Inl e
           | Inr rest \<Rightarrow> Inr ((name, start, stop) # rest)))"

text \<open>The loop \<^verbatim>\<open>for sent in doc.sents\<close>, with its \<^verbatim>\<open>continue\<close> and its two \<^verbatim>\<open>return\<close>s; a sentence
  whose matches are neither strict nor implicit falls through to the next one.\<close>

fun scan_sents :: "string_store \<Rightarrow> matcher \<Rightarrow> token list list \<Rightarrow> py_error + bool \<times> string" where
  "scan_sents strings m [] = Inr (False, '''')"
| "scan_sents strings m (sent # rest) =
     (case resolve_matches strings (Matcher_call m sent) of
        Inl e \<Rightarrow> Inl e
      | Inr matches \<Rightarrow>
          if matches = [] then scan_sents strings m rest
          else
            (let strict_matches = filter (\<lambda>m. fst m = ''STRICT_COMPARISON'') matches;
                 implicit_matches = filter (\<lambda>m. fst m = ''IMPLICIT_COMPARISON'') matches
             in if strict_matches \<noteq> [] then Inr (True, ''STRICT_COMPARISON'')
                else if implicit_matches \<noteq> [] then Inr (True, ''IMPLICIT_COMPARISON'')
                else scan_sents strings m rest))"

text \<open>A classifier takes the string store and the text, and returns its result (or the
  exception) with the store it leaves behind.\<close>

type_synonym classifier = "string_store \<Rightarrow> string \<Rightarrow> (py_error + bool \<times> string) \<times> string_store"

definition comparison_matcher :: "string_store \<Rightarrow> matcher \<times> string_store" where
  "comparison_matcher strings =
     Matcher_add ''IMPLICIT_COMPARISON'' implicit_patterns
       (Matcher_add ''STRICT_COMPARISON'' strict_patterns (Matcher_new, strings))"

definition detect_comparison :: "annotator \<Rightarrow> classifier" where
  "detect_comparison nlp strings text =
     (let d = nlp text
      in case comparison_matcher strings of
           (matcher, strings') \<Rightarrow> (scan_sents strings' matcher (sents d), strings'))"

definition detect_other :: classifier where
  "detect_other strings text = (Inr (False, ''''), strings)"

section \<open>The category registry\<close>

text \<open>The dictionary \<^verbatim>\<open>CATEGORY_FUNCTIONS\<close>, in the order of its literal.\<close>

definition CATEGORY_FUNCTIONS :: "annotator \<Rightarrow> (string \<times> classifier) list" where
  "CATEGORY_FUNCTIONS nlp = [(''comparison'', detect_comparison nlp), (''other'', detect_other)]"

section \<open>Calls in sequence\<close>





section \<open>Vocabulary of the properties\<close>

text \<open>A token that makes \<^verbatim>\<open>check_root_verb\<close> succeed.\<close>

definition finite_root_verb :: "token \<Rightarrow> bool" where
  "finite_root_verb t =
     (tok_dep t = ''ROOT'' \<and> (tok_pos t = ''VERB'' \<or> tok_pos t = ''AUX'')
      \<and> ''VerbForm=Fin'' \<in> set (tok_morph t))"

text \<open>The seven checks of the validator, as the specification words them: a sentence with
  a finite root verb; no token that looks like a URL; no token whose text is \<^verbatim>\<open>scam\<close> or
  \<^verbatim>\<open>legit\<close>; no mention (below); three tokens at least; one exclamation mark at most and
  exactly one sentence; more than six tenths of the tokens alphabetic.\<close>

definition has_finite_root_verb :: "doc \<Rightarrow> bool" where
  "has_finite_root_verb d = (\<exists>sent \<in> set (sents d). \<exists>t \<in> set sent. finite_root_verb t)"

definition no_url :: "doc \<Rightarrow> bool" where
  "no_url d = (\<forall>t \<in> set (tokens d). \<not> tok_like_url t)"

definition no_banned_words :: "doc \<Rightarrow> bool" where
  "no_banned_words d = (\<forall>t \<in> set (tokens d). tok_text t \<noteq> ''scam'' \<and> tok_text t \<noteq> ''legit'')"

definition min_length :: "doc \<Rightarrow> bool" where
  "min_length d = (3 \<le> length (tokens d))"

definition calm_single_sentence :: "string \<Rightarrow> doc \<Rightarrow> bool" where
  "calm_single_sentence text d = (count_list text CHR ''!'' \<le> 1 \<and> length (sents d) = 1)"

definition mostly_alphabetic :: "doc \<Rightarrow> bool" where
  "mostly_alphabetic d =
     (6 / 10 < (of_nat (length (filter tok_is_alpha (tokens d))) :: rat)
                / of_nat (max 1 (length (tokens d))))"

text \<open>The raw text holds a mention: \<open>u\<close> or \<open>r\<close>, a slash and one or more word characters.\<close>

definition has_mention :: "string \<Rightarrow> bool" where
  "has_mention text =
     (\<exists>pre c ws post. text = pre @ c # CHR ''/'' # ws @ post
        \<and> (c = CHR ''u'' \<or> c = CHR ''r'') \<and> ws \<noteq> [] \<and> list_all re_w ws)"

text \<open>Some strict pattern, or some implicit pattern, matches somewhere in the sentence.\<close>

definition strict_match :: "token list \<Rightarrow> bool" where
  "strict_match sent = list_ex (\<lambda>p. pattern_matches p sent \<noteq> []) strict_patterns"

definition implicit_match :: "token list \<Rightarrow> bool" where
  "implicit_match sent = list_ex (\<lambda>p. pattern_matches p sent \<noteq> []) implicit_patterns"

text \<open>The result the specification asks of the detector: the first sentence, in document
  order, in which a pattern of either family matches decides, strict before implicit; no
  such sentence gives \<^verbatim>\<open>(False, '')\<close>.\<close>

definition first_match_verdict :: "token list list \<Rightarrow> bool \<times> string" where
  "first_match_verdict ss =
     (case find (\<lambda>sent. strict_match sent \<or> implicit_match sent) ss of
        None \<Rightarrow> (False, '''')
      | Some sent \<Rightarrow>
          (True, if strict_match sent then ''STRICT_COMPARISON'' else ''IMPLICIT_COMPARISON''))"

text \<open>Two tokens that differ in the capitalisation of their text at most.\<close>

definition case_variant :: "token \<Rightarrow> token \<Rightarrow> bool" where
  "case_variant t t' =
     (lower (tok_text t') = lower (tok_text t)
      \<and> t' = t\<lparr>tok_text := tok_text t'\<rparr>)"

text \<open>
  What the annotator is taken to guarantee where a property needs it. Tokenisation is
  non-destructive: the text of every token is a piece of the raw text, and a sentence is
  a span of the doc's tokens. A token of whitespace is tagged \<^verbatim>\<open>_SP\<close> and is not
  alphabetic.
\<close>

definition tokenizes :: "string \<Rightarrow> doc \<Rightarrow> bool" where
  "tokenizes text d =
     (list_all (\<lambda>t. sublist (tok_text t) text) (tokens d)
      \<and> list_all (\<lambda>sent. list_all (\<lambda>t. t \<in> set (tokens d)) sent) (sents d))"

definition tags_whitespace :: "doc \<Rightarrow> bool" where
  "tags_whitespace d =
     list_all (\<lambda>t. \<not> blank (tok_text t) \<or> (tok_tag t = ''_SP'' \<and> \<not> tok_is_alpha t)) (tokens d)"

section \<open>Annotated examples\<close>

text \<open>Hand-annotated texts, with the tags of the Penn treebank and the labels of the
  English models, on which the properties are run.\<close>

definition tk ::
    "string \<Rightarrow> string \<Rightarrow> string \<Rightarrow> string \<Rightarrow> string list \<Rightarrow> string \<Rightarrow> bool \<Rightarrow> token" where
  "tk s pos tag dep morph lem alpha =
     \<lparr>tok_text = s, tok_pos = pos, tok_tag = tag, tok_dep = dep, tok_morph = morph,
      tok_lemma = lem, tok_like_url = False, tok_is_alpha = alpha\<rparr>"

definition fin_morph :: "string list" where
  "fin_morph = [''Number=Sing'', ''Person=3'', ''Tense=Pres'', ''VerbForm=Fin'']"

definition period :: token where
  "period = tk ''.'' ''PUNCT'' ''.'' ''punct'' [''PunctType=Peri''] ''.'' False"

text \<open>\<^verbatim>\<open>The sky is blue.\<close>, and \<^verbatim>\<open>The sky is blue!!\<close> with its two exclamation marks.\<close>

definition sky_words :: "token list" where
  "sky_words =
     [tk ''The'' ''DET'' ''DT'' ''det'' [''Definite=Def'', ''PronType=Art''] ''the'' True,
      tk ''sky'' ''NOUN'' ''NN'' ''nsubj'' [''Number=Sing''] ''sky'' True,
      tk ''is'' ''AUX'' ''VBZ'' ''ROOT'' (''Mood=Ind'' # fin_morph) ''be'' True,
      tk ''blue'' ''ADJ'' ''JJ'' ''acomp'' [''Degree=Pos''] ''blue'' True]"

definition sent_sky :: "token list" where
  "sent_sky = sky_words @ [period]"

definition bang :: token where
  "bang = tk ''!'' ''PUNCT'' ''.'' ''punct'' [''PunctType=Peri''] ''!'' False"

definition sent_sky_loud :: "token list" where
  "sent_sky_loud = sky_words @ [bang, bang]"

text \<open>\<^verbatim>\<open>This causes more pain than before.\<close>\<close>

definition sent_pain :: "token list" where
  "sent_pain =
     [tk ''This'' ''PRON'' ''DT'' ''nsubj'' [''Number=Sing'', ''PronType=Dem''] ''this'' True,
      tk ''causes'' ''VERB'' ''VBZ'' ''ROOT'' fin_morph ''cause'' True,
      tk ''more'' ''ADJ'' ''JJR'' ''amod'' [''Degree=Cmp''] ''more'' True,
      tk ''pain'' ''NOUN'' ''NN'' ''dobj'' [''Number=Sing''] ''pain'' True,
      tk ''than'' ''ADP'' ''IN'' ''prep'' [] ''than'' True,
      tk ''before'' ''ADV'' ''RB'' ''pcomp'' [] ''before'' True,
      period]"

text \<open>\<^verbatim>\<open>This is the best idea ever.\<close>\<close>

definition sent_best :: "token list" where
  "sent_best =
     [tk ''This'' ''PRON'' ''DT'' ''nsubj'' [''Number=Sing'', ''PronType=Dem''] ''this'' True,
      tk ''is'' ''AUX'' ''VBZ'' ''ROOT'' (''Mood=Ind'' # fin_morph) ''be'' True,
      tk ''the'' ''DET'' ''DT'' ''det'' [''Definite=Def'', ''PronType=Art''] ''the'' True,
      tk ''best'' ''ADJ'' ''JJS'' ''amod'' [''Degree=Sup''] ''good'' True,
      tk ''idea'' ''NOUN'' ''NN'' ''attr'' [''Number=Sing''] ''idea'' True,
      tk ''ever'' ''ADV'' ''RB'' ''advmod'' [] ''ever'' True,
      period]"

text \<open>\<^verbatim>\<open>Most people agree.\<close>\<close>

definition sent_most :: "token list" where
  "sent_most =
     [tk ''Most'' ''ADJ'' ''JJS'' ''amod'' [''Degree=Sup''] ''most'' True,
      tk ''people'' ''NOUN'' ''NNS'' ''nsubj'' [''Number=Plur''] ''people'' True,
      tk ''agree'' ''VERB'' ''VBP'' ''ROOT'' [''Tense=Pres'', ''VerbForm=Fin''] ''agree'' True,
      period]"

text \<open>\<^verbatim>\<open>More money than sense\<close>, and the same in lower case.\<close>

definition sent_money :: "string \<Rightarrow> token list" where
  "sent_money first =
     [tk first ''ADJ'' ''JJR'' ''amod'' [''Degree=Cmp''] ''more'' True,
      tk ''money'' ''NOUN'' ''NN'' ''ROOT'' [''Number=Sing''] ''money'' True,
      tk ''than'' ''ADP'' ''IN'' ''prep'' [] ''than'' True,
      tk ''sense'' ''NOUN'' ''NN'' ''pobj'' [''Number=Sing''] ''sense'' True]"

text \<open>\<^verbatim>\<open>He trusts u/bob\<close> and \<^verbatim>\<open>He trusts U/someone\<close>: the slash between letters is a token of
  its own.\<close>

definition sent_trusts :: "string \<Rightarrow> string \<Rightarrow> token list" where
  "sent_trusts site name =
     [tk ''He'' ''PRON'' ''PRP'' ''nsubj'' [''Case=Nom'', ''Gender=Masc'', ''Number=Sing''] ''he'' True,
      tk ''trusts'' ''VERB'' ''VBZ'' ''ROOT'' fin_morph ''trust'' True,
      tk site ''NOUN'' ''NN'' ''nmod'' [''Number=Sing''] site True,
      tk ''/'' ''SYM'' ''SYM'' ''punct'' [] ''/'' False,
      tk name ''NOUN'' ''NN'' ''dobj'' [''Number=Sing''] name True]"

text \<open>A sentence without any root, and \<^verbatim>\<open>Money talks loudly\<close> with two roots of which the
  second is finite: annotations that break the one-root invariant.\<close>

definition sent_rootless :: "token list" where
  "sent_rootless =
     [tk ''Free'' ''ADJ'' ''JJ'' ''amod'' [''Degree=Pos''] ''free'' True,
      tk ''money'' ''NOUN'' ''NN'' ''dep'' [''Number=Sing''] ''money'' True]"

definition sent_two_roots :: "token list" where
  "sent_two_roots =
     [tk ''Money'' ''NOUN'' ''NN'' ''ROOT'' [''Number=Sing''] ''money'' True,
      tk ''talks'' ''VERB'' ''VBZ'' ''ROOT'' fin_morph ''talk'' True,
      tk ''loudly'' ''ADV'' ''RB'' ''advmod'' [] ''loudly'' True]"

text \<open>A run of two spaces, one whitespace token.\<close>

definition sent_space :: "token list" where
  "sent_space = [tk ''  '' ''SPACE'' ''_SP'' ''ROOT'' [] ''  '' False]"

definition one_sentence :: "token list \<Rightarrow> doc" where
  "one_sentence sent = \<lparr>tokens = sent, sents = [sent]\<rparr>"

definition nlp_example :: annotator where
  "nlp_example text =
     (if text = ''The sky is blue.'' then one_sentence sent_sky
      else if text = ''This causes more pain than before.'' then one_sentence sent_pain
      else if text = ''This is the best idea ever.'' then one_sentence sent_best
      else if text = ''Most people agree.'' then one_sentence sent_most
      else if text = ''More money than sense'' then one_sentence (sent_money ''More'')
      else if text = ''more money than sense'' then one_sentence (sent_money ''more'')
      else if text = ''He trusts u/bob'' then one_sentence (sent_trusts ''u'' ''bob'')
      else if text = ''He trusts U/someone'' then one_sentence (sent_trusts ''U'' ''someone'')
      else if text = ''The sky is blue!!'' then one_sentence sent_sky_loud
      else if text = ''The sky is blue. This is the best idea ever. This causes more pain than before.''
        then \<lparr>tokens = sent_sky @ sent_best @ sent_pain, sents = [sent_sky, sent_best, sent_pain]\<rparr>
      else if text = ''Free money'' then one_sentence sent_rootless
      else if text = ''Money talks loudly'' then one_sentence sent_two_roots
      else if text = ''  '' then one_sentence sent_space
      else \<lparr>tokens = [], sents = []\<rparr>)"


section \<open>Properties of the validator\<close>

subsection \<open>The loops and the regular expressions\<close>

lemma check_sent_iff: "check_sent sent \<longleftrightarrow> (\<exists>t \<in> set sent. finite_root_verb t)"
  by (induction sent) (auto simp add: finite_root_verb_def)

lemma check_sents_iff: "check_sents ss \<longleftrightarrow> (\<exists>sent \<in> set ss. check_sent sent)"
  by (induction ss) auto

lemma check_root_verb_iff:
  "check_root_verb d \<longleftrightarrow> (\<exists>sent \<in> set (sents d). \<exists>t \<in> set sent. finite_root_verb t)"
  by (simp add: check_root_verb_def check_sents_iff check_sent_iff)

lemma truediv_max: "truediv a (max 1 n) = Inr (of_nat a / of_nat (max 1 n))"
  by (simp add: truediv_def)

lemma star_nonempty: "match_lens sat [(c, ZeroOrMore)] xs \<noteq> []"
  by (cases xs) auto

lemma mention_at_head:
  "match_lens re_sat [(Lit a, Exactly1), (Lit CHR ''/'', Exactly1), (WordChar, OneOrMore)] cs \<noteq> []
   \<longleftrightarrow> (\<exists>w rest. cs = a # CHR ''/'' # w # rest \<and> re_w w)"
proof (cases cs)
  case Nil
  then show ?thesis by simp
next
  case (Cons c1 cs1)
  note c1 = this
  show ?thesis
  proof (cases cs1)
    case Nil
    with c1 show ?thesis by simp
  next
    case (Cons c2 cs2)
    note c2 = this
    show ?thesis
    proof (cases cs2)
      case Nil
      with c1 c2 show ?thesis by simp
    next
      case (Cons c3 cs3)
      with c1 c2 show ?thesis
        using star_nonempty [of re_sat WordChar cs3] by auto
    qed
  qed
qed

lemma re_search_mention:
  "re_search [(Lit a, Exactly1), (Lit CHR ''/'', Exactly1), (WordChar, OneOrMore)] s
   \<longleftrightarrow> (\<exists>pre w post. s = pre @ a # CHR ''/'' # w # post \<and> re_w w)"
proof (induction s)
  case Nil
  then show ?case by simp
next
  case (Cons c cs)
  let ?p = "[(Lit a, Exactly1), (Lit CHR ''/'', Exactly1), (WordChar, OneOrMore)]"
  let ?here = "\<exists>w rest. c # cs = a # CHR ''/'' # w # rest \<and> re_w w"
  let ?later = "\<exists>pre w post. cs = pre @ a # CHR ''/'' # w # post \<and> re_w w"
  let ?any = "\<exists>pre w post. c # cs = pre @ a # CHR ''/'' # w # post \<and> re_w w"
  have "re_search ?p (c # cs) \<longleftrightarrow> ?here \<or> ?later"
    using Cons.IH mention_at_head [of a "c # cs"] by simp
  also have "\<dots> \<longleftrightarrow> ?any"
  proof
    assume "?here \<or> ?later"
    then show ?any
    proof
      assume ?here
      then obtain w rest where "c # cs = [] @ a # CHR ''/'' # w # rest" "re_w w" by auto
      then show ?any by blast
    next
      assume ?later
      then obtain pre w post where "c # cs = (c # pre) @ a # CHR ''/'' # w # post" "re_w w"
        by auto
      then show ?any by blast
    qed
  next
    assume ?any
    then obtain pre w post where e: "c # cs = pre @ a # CHR ''/'' # w # post" and w: "re_w w"
      by auto
    show "?here \<or> ?later"
    proof (cases pre)
      case Nil
      with e w show ?thesis by auto
    next
      case (Cons p ps)
      with e have "cs = ps @ a # CHR ''/'' # w # post" by simp
      with w show ?thesis by blast
    qed
  qed
  finally show ?case .
qed

lemma word_run:
  "(\<exists>pre ws post. s = pre @ a # CHR ''/'' # ws @ post \<and> ws \<noteq> [] \<and> list_all re_w ws)
   \<longleftrightarrow> (\<exists>pre w post. s = pre @ a # CHR ''/'' # w # post \<and> re_w w)"
proof
  assume "\<exists>pre ws post. s = pre @ a # CHR ''/'' # ws @ post \<and> ws \<noteq> [] \<and> list_all re_w ws"
  then obtain pre ws post where s: "s = pre @ a # CHR ''/'' # ws @ post"
    and ws: "ws \<noteq> []" "list_all re_w ws" by blast
  from ws obtain w ws' where "ws = w # ws'" "re_w w" by (cases ws) auto
  with s have "s = pre @ a # CHR ''/'' # w # (ws' @ post)" by simp
  with \<open>re_w w\<close> show "\<exists>pre w post. s = pre @ a # CHR ''/'' # w # post \<and> re_w w" by blast
next
  assume "\<exists>pre w post. s = pre @ a # CHR ''/'' # w # post \<and> re_w w"
  then obtain pre w post where "s = pre @ a # CHR ''/'' # [w] @ post" "re_w w" by auto
  then have "s = pre @ a # CHR ''/'' # [w] @ post \<and> [w] \<noteq> [] \<and> list_all re_w [w]" by simp
  then show "\<exists>pre ws post. s = pre @ a # CHR ''/'' # ws @ post \<and> ws \<noteq> [] \<and> list_all re_w ws"
    by blast
qed

lemma no_mentions_iff: "no_mentions s \<longleftrightarrow> \<not> has_mention s"
proof -
  have "has_mention s \<longleftrightarrow>
      (\<exists>pre ws post. s = pre @ CHR ''u'' # CHR ''/'' # ws @ post \<and> ws \<noteq> [] \<and> list_all re_w ws)
    \<or> (\<exists>pre ws post. s = pre @ CHR ''r'' # CHR ''/'' # ws @ post \<and> ws \<noteq> [] \<and> list_all re_w ws)"
    unfolding has_mention_def by blast
  then show ?thesis
    unfolding word_run no_mentions_def user_pattern_def subreddit_pattern_def re_search_mention
    by simp
qed

lemma is_valid_claim_eq:
  "is_valid_claim nlp s =
     Inr (has_finite_root_verb (nlp s) \<and> no_url (nlp s) \<and> no_banned_words (nlp s)
          \<and> \<not> has_mention s \<and> min_length (nlp s) \<and> calm_single_sentence s (nlp s)
          \<and> mostly_alphabetic (nlp s))"
  unfolding is_valid_claim_def Let_def truediv_max
  by (simp add: check_root_verb_iff no_mentions_iff list_ex_iff has_finite_root_verb_def
      no_url_def no_banned_words_def min_length_def calm_single_sentence_def mostly_alphabetic_def)

subsection \<open>The decision of the validator\<close>

text \<open>
  Claim C1. For every annotator and every text, \<^verbatim>\<open>is_valid_claim\<close> returns true if and only
  if all seven checks hold, each made on the same doc, and false if and only if one of
  them fails (so it never raises): (1) some sentence has a
  token with the dependency \<^verbatim>\<open>ROOT\<close>, coarse tag \<^verbatim>\<open>VERB\<close> or \<^verbatim>\<open>AUX\<close> and the feature
  \<^verbatim>\<open>VerbForm=Fin\<close>; (2) no token looks like a URL; (3) no token's text is \<^verbatim>\<open>scam\<close> or \<^verbatim>\<open>legit\<close>;
  (4) the raw text holds no \<^verbatim>\<open>u/\<close> or \<^verbatim>\<open>r/\<close> followed by word characters; (5) there are three
  tokens at least; (6) the raw text has one \<^verbatim>\<open>!\<close> at most and the doc exactly one sentence;
  (7) the alphabetic tokens are more than 0.6 of \<open>max 1 n\<close>, \<open>n\<close> the number of tokens.
\<close>

theorem is_valid_claim_seven_checks:
  "(is_valid_claim nlp s = Inr True \<longleftrightarrow>
      has_finite_root_verb (nlp s) \<and> no_url (nlp s) \<and> no_banned_words (nlp s)
      \<and> \<not> has_mention s \<and> min_length (nlp s) \<and> calm_single_sentence s (nlp s)
      \<and> mostly_alphabetic (nlp s))
   \<and> (is_valid_claim nlp s = Inr False \<longleftrightarrow>
      \<not> has_finite_root_verb (nlp s) \<or> \<not> no_url (nlp s) \<or> \<not> no_banned_words (nlp s)
      \<or> has_mention s \<or> \<not> min_length (nlp s) \<or> \<not> calm_single_sentence s (nlp s)
      \<or> \<not> mostly_alphabetic (nlp s))"
proof
  show "is_valid_claim nlp s = Inr True \<longleftrightarrow>
      has_finite_root_verb (nlp s) \<and> no_url (nlp s) \<and> no_banned_words (nlp s)
      \<and> \<not> has_mention s \<and> min_length (nlp s) \<and> calm_single_sentence s (nlp s)
      \<and> mostly_alphabetic (nlp s)"
    unfolding is_valid_claim_eq by simp
  show "is_valid_claim nlp s = Inr False \<longleftrightarrow>
      \<not> has_finite_root_verb (nlp s) \<or> \<not> no_url (nlp s) \<or> \<not> no_banned_words (nlp s)
      \<or> has_mention s \<or> \<not> min_length (nlp s) \<or> \<not> calm_single_sentence s (nlp s)
      \<or> \<not> mostly_alphabetic (nlp s)"
    unfolding is_valid_claim_eq by auto
qed

theorem is_valid_claim_seven_checks_witness:
  "is_valid_claim nlp_example ''The sky is blue.'' = Inr True
   \<and> has_finite_root_verb (nlp_example ''The sky is blue.'')
   \<and> \<not> has_mention ''The sky is blue.''
   \<and> mostly_alphabetic (nlp_example ''The sky is blue.'')
   \<and> is_valid_claim nlp_example ''He trusts u/bob'' = Inr False"
proof -
  have "is_valid_claim nlp_example ''The sky is blue.'' = Inr True"
    by code_simp
  moreover have "is_valid_claim nlp_example ''He trusts u/bob'' = Inr False"
    by code_simp
  ultimately show ?thesis
    using is_valid_claim_seven_checks [of nlp_example "''The sky is blue.''"] by simp
qed

subsection \<open>The limit on exclamation marks\<close>

text \<open>
  Claim C3, as stated, lists the checks 1, 2, 3, 5 and 7 beside the single sentence and
  the exclamation count, and leaves out check 4. It fails on \<^verbatim>\<open>He trusts u/bob\<close>: one sentence,
  no exclamation mark, a finite root verb, no URL, no banned word, five tokens of which
  four are alphabetic, and yet the mention makes the validator return false.
\<close>

theorem mention_rejected_counterexample:
  "\<not> (\<forall>nlp s. length (sents (nlp s)) = 1 \<and> count_list s CHR ''!'' \<le> 1
          \<and> has_finite_root_verb (nlp s) \<and> no_url (nlp s) \<and> no_banned_words (nlp s)
          \<and> min_length (nlp s) \<and> mostly_alphabetic (nlp s)
        \<longrightarrow> is_valid_claim nlp s = Inr True)"
proof
  let ?s = "''He trusts u/bob''"
  assume "\<forall>nlp s. length (sents (nlp s)) = 1 \<and> count_list s CHR ''!'' \<le> 1
          \<and> has_finite_root_verb (nlp s) \<and> no_url (nlp s) \<and> no_banned_words (nlp s)
          \<and> min_length (nlp s) \<and> mostly_alphabetic (nlp s)
        \<longrightarrow> is_valid_claim nlp s = Inr True"
  then have "length (sents (nlp_example ?s)) = 1 \<and> count_list ?s CHR ''!'' \<le> 1
          \<and> has_finite_root_verb (nlp_example ?s) \<and> no_url (nlp_example ?s)
          \<and> no_banned_words (nlp_example ?s)
          \<and> min_length (nlp_example ?s) \<and> mostly_alphabetic (nlp_example ?s)
        \<longrightarrow> is_valid_claim nlp_example ?s = Inr True"
    by blast
  moreover have "length (sents (nlp_example ?s)) = 1" by code_simp
  moreover have "count_list ?s CHR ''!'' \<le> 1" by code_simp
  moreover have "has_finite_root_verb (nlp_example ?s)" by code_simp
  moreover have "no_url (nlp_example ?s)" by code_simp
  moreover have "no_banned_words (nlp_example ?s)" by code_simp
  moreover have "min_length (nlp_example ?s)" by code_simp
  moreover have "mostly_alphabetic (nlp_example ?s)" by code_simp
  moreover have "is_valid_claim nlp_example ?s = Inr False" by code_simp
  ultimately show False by simp
qed

text \<open>
  Claim C3, amended. A text with exactly one sentence and one exclamation mark at most
  that passes the checks 1, 2, 3, 4 (no mention), 5 and 7 is accepted; and every text with
  two exclamation marks is rejected, whatever else holds of it.
\<close>

theorem exclamation_limit:
  "(calm_single_sentence s (nlp s) \<and> has_finite_root_verb (nlp s) \<and> no_url (nlp s)
      \<and> no_banned_words (nlp s) \<and> \<not> has_mention s \<and> min_length (nlp s)
      \<and> mostly_alphabetic (nlp s)
    \<longrightarrow> is_valid_claim nlp s = Inr True)
   \<and> (count_list s' CHR ''!'' = 2 \<longrightarrow> is_valid_claim nlp s' = Inr False)"
  by (simp add: is_valid_claim_eq calm_single_sentence_def)

theorem exclamation_limit_witness:
  "is_valid_claim nlp_example ''The sky is blue.'' = Inr True
   \<and> count_list ''The sky is blue!!'' CHR ''!'' = 2
   \<and> is_valid_claim nlp_example ''The sky is blue!!'' = Inr False"
proof -
  let ?s = "''The sky is blue.''"
  have "calm_single_sentence ?s (nlp_example ?s)" by code_simp
  moreover have "has_finite_root_verb (nlp_example ?s)" by code_simp
  moreover have "no_url (nlp_example ?s)" by code_simp
  moreover have "no_banned_words (nlp_example ?s)" by code_simp
  moreover have "no_mentions ?s" by code_simp
  moreover have "min_length (nlp_example ?s)" by code_simp
  moreover have "mostly_alphabetic (nlp_example ?s)" by code_simp
  moreover have "count_list ''The sky is blue!!'' CHR ''!'' = 2" by code_simp
  ultimately show ?thesis
    using exclamation_limit [of ?s nlp_example "''The sky is blue!!''"]
    by (simp add: no_mentions_iff)
qed

subsection \<open>Annotations that break the one-root invariant\<close>

text \<open>
  Claim C6, as stated, has \<^verbatim>\<open>check_root_verb\<close> return false for every sentence that breaks the
  invariant, a sentence with several roots included. It fails on \<^verbatim>\<open>Money talks loudly\<close>
  annotated with two roots, the noun and the finite verb: the loop never counts the roots,
  stops at the finite one and returns true, and the validator accepts the text.
\<close>

theorem two_roots_counterexample:
  "sents (nlp_example ''Money talks loudly'') = [sent_two_roots]
   \<and> length (filter (\<lambda>t. tok_dep t = ''ROOT'') sent_two_roots) = 2
   \<and> check_sent sent_two_roots
   \<and> check_root_verb (nlp_example ''Money talks loudly'')
   \<and> is_valid_claim nlp_example ''Money talks loudly'' = Inr True"
  by (intro conjI; code_simp)

text \<open>
  Claim C6, amended. \<^verbatim>\<open>check_root_verb\<close> is defined on every doc, whatever its roots, and never
  raises: its result is the existential over all tokens of all sentences (a root that is
  a finite verb or auxiliary). So it is false when no root of any sentence is a finite
  verb or auxiliary, in particular when the sentences have no root, and the validator
  then returns false; and it is true as soon as one root of one sentence is a finite verb
  or auxiliary, however many roots that sentence has.
\<close>

theorem check_root_verb_total:
  "(check_root_verb d \<longleftrightarrow> (\<exists>sent \<in> set (sents d). \<exists>t \<in> set sent. finite_root_verb t))
   \<and> ((\<forall>sent \<in> set (sents d). \<forall>t \<in> set sent.
          tok_dep t = ''ROOT'' \<longrightarrow>
            \<not> ((tok_pos t = ''VERB'' \<or> tok_pos t = ''AUX'') \<and> ''VerbForm=Fin'' \<in> set (tok_morph t)))
        \<longrightarrow> \<not> check_root_verb d)
   \<and> (\<not> check_root_verb (nlp s) \<longrightarrow> is_valid_claim nlp s = Inr False)
   \<and> (sent \<in> set (sents d) \<and> t \<in> set sent \<and> tok_dep t = ''ROOT''
        \<and> (tok_pos t = ''VERB'' \<or> tok_pos t = ''AUX'') \<and> ''VerbForm=Fin'' \<in> set (tok_morph t)
      \<longrightarrow> check_root_verb d)"
proof -
  have "is_valid_claim nlp s = Inr False" if "\<not> check_root_verb (nlp s)"
    using that by (simp add: is_valid_claim_eq has_finite_root_verb_def check_root_verb_iff)
  then show ?thesis
    by (auto simp add: check_root_verb_iff finite_root_verb_def)
qed

theorem check_root_verb_total_witness:
  "\<not> check_root_verb (nlp_example ''Free money'')
   \<and> is_valid_claim nlp_example ''Free money'' = Inr False
   \<and> check_root_verb (nlp_example ''Money talks loudly'')
   \<and> \<not> check_root_verb (nlp_example '''')"
proof -
  let ?d = "nlp_example ''Free money''"
  let ?t = "sent_two_roots ! 1"
  have "\<forall>sent \<in> set (sents ?d). \<forall>t \<in> set sent.
          tok_dep t = ''ROOT'' \<longrightarrow>
            \<not> ((tok_pos t = ''VERB'' \<or> tok_pos t = ''AUX'') \<and> ''VerbForm=Fin'' \<in> set (tok_morph t))"
    by code_simp
  then have free: "\<not> check_root_verb ?d \<and> is_valid_claim nlp_example ''Free money'' = Inr False"
    using check_root_verb_total [of ?d nlp_example "''Free money''"] by blast
  have "sent_two_roots \<in> set (sents (nlp_example ''Money talks loudly''))"
    "?t \<in> set sent_two_roots" "tok_dep ?t = ''ROOT''" "tok_pos ?t = ''VERB''"
    "''VerbForm=Fin'' \<in> set (tok_morph ?t)"
    by code_simp+
  then have talks: "check_root_verb (nlp_example ''Money talks loudly'')"
    using check_root_verb_total [of "nlp_example ''Money talks loudly''" nlp_example _ sent_two_roots ?t]
    by blast
  have "\<not> (\<exists>sent \<in> set (sents (nlp_example '''')). \<exists>t \<in> set sent. finite_root_verb t)"
    by code_simp
  then have "\<not> check_root_verb (nlp_example '''')"
    using check_root_verb_total [of "nlp_example ''''" nlp_example] by blast
  with free talks show ?thesis by simp
qed

subsection \<open>The mention check is case-sensitive\<close>

text \<open>
  Claim C10. The mention check fails exactly when the raw text holds a lower-case \<open>u\<close> or
  \<open>r\<close>, a slash and at least one word character, and then the validator rejects the text;
  the upper-case \<^verbatim>\<open>U/someone\<close> and \<^verbatim>\<open>R/somewhere\<close> pass the check.
\<close>

theorem no_mentions_case_sensitive:
  "(no_mentions s \<longleftrightarrow> \<not> has_mention s)
   \<and> (has_mention s \<longrightarrow> is_valid_claim nlp s = Inr False)
   \<and> no_mentions ''U/someone'' \<and> no_mentions ''R/somewhere''"
proof -
  have "no_mentions ''U/someone''" "no_mentions ''R/somewhere''"
    by code_simp+
  then show ?thesis
    by (simp add: no_mentions_iff is_valid_claim_eq)
qed

theorem no_mentions_case_sensitive_witness:
  "has_mention ''He trusts u/bob''
   \<and> is_valid_claim nlp_example ''He trusts u/bob'' = Inr False
   \<and> \<not> has_mention ''He trusts U/someone''
   \<and> is_valid_claim nlp_example ''He trusts U/someone'' = Inr True"
proof -
  have "\<not> no_mentions ''He trusts u/bob''" by code_simp
  moreover have "no_mentions ''He trusts U/someone''" by code_simp
  moreover have "is_valid_claim nlp_example ''He trusts U/someone'' = Inr True" by code_simp
  ultimately show ?thesis
    using no_mentions_case_sensitive [of "''He trusts u/bob''" nlp_example]
      no_mentions_case_sensitive [of "''He trusts U/someone''" nlp_example]
    by blast
qed


section \<open>Properties of the detector\<close>

subsection \<open>The matcher and the string store\<close>

lemma comparison_matcher_rules:
  "rules (fst (comparison_matcher strings)) =
     [(''STRICT_COMPARISON'', strict_patterns), (''IMPLICIT_COMPARISON'', implicit_patterns)]"
  by (simp add: comparison_matcher_def Matcher_add_def Matcher_new_def)

lemma comparison_matcher_interned:
  "''STRICT_COMPARISON'' \<in> set (snd (comparison_matcher strings))"
  "''IMPLICIT_COMPARISON'' \<in> set (snd (comparison_matcher strings))"
  by (simp_all add: comparison_matcher_def Matcher_add_def Matcher_new_def)


lemma resolve_matches_interned:
  "\<forall>m \<in> set ms. fst m \<in> set strings \<Longrightarrow> resolve_matches strings ms = Inr ms"
  by (induction ms) (auto simp add: strings_get_def)

lemma Matcher_call_mem:
  "(k, a, b) \<in> set (Matcher_call M sent) \<longleftrightarrow>
     (\<exists>ps. (k, ps) \<in> set (rules M) \<and> (\<exists>p \<in> set ps. (a, b) \<in> set (pattern_matches p sent)))"
proof
  assume "(k, a, b) \<in> set (Matcher_call M sent)"
  then obtain r where r: "r \<in> set (rules M)"
    and m: "(k, a, b) \<in> set (concat (map (\<lambda>p. map (\<lambda>(start, stop). (fst r, start, stop))
                                         (pattern_matches p sent)) (snd r)))"
    unfolding Matcher_call_def by (auto simp add: case_prod_beta)
  from m obtain p where p: "p \<in> set (snd r)"
    and "(k, a, b) \<in> (\<lambda>(start, stop). (fst r, start, stop)) ` set (pattern_matches p sent)"
    by auto
  then have "k = fst r" "(a, b) \<in> set (pattern_matches p sent)" by auto
  with r p show "\<exists>ps. (k, ps) \<in> set (rules M) \<and> (\<exists>p \<in> set ps. (a, b) \<in> set (pattern_matches p sent))"
    by (metis prod.collapse)
next
  assume "\<exists>ps. (k, ps) \<in> set (rules M) \<and> (\<exists>p \<in> set ps. (a, b) \<in> set (pattern_matches p sent))"
  then obtain ps p where "(k, ps) \<in> set (rules M)" "p \<in> set ps" "(a, b) \<in> set (pattern_matches p sent)"
    by blast
  then show "(k, a, b) \<in> set (Matcher_call M sent)"
    unfolding Matcher_call_def by (auto intro!: bexI [of _ "(k, ps)"] bexI [of _ p] bexI [of _ "(a, b)"])
qed

lemma two_rules_mem:
  assumes "rules M = [(''STRICT_COMPARISON'', strict_patterns), (''IMPLICIT_COMPARISON'', implicit_patterns)]"
  shows "(k, a, b) \<in> set (Matcher_call M sent) \<longleftrightarrow>
     (k = ''STRICT_COMPARISON'' \<and> (\<exists>p \<in> set strict_patterns. (a, b) \<in> set (pattern_matches p sent)))
   \<or> (k = ''IMPLICIT_COMPARISON'' \<and> (\<exists>p \<in> set implicit_patterns. (a, b) \<in> set (pattern_matches p sent)))"
  unfolding Matcher_call_mem assms by auto

lemma some_match:
  "(\<exists>p \<in> set ps. \<exists>a b. (a, b) \<in> set (pattern_matches p sent))
   \<longleftrightarrow> list_ex (\<lambda>p. pattern_matches p sent \<noteq> []) ps"
proof -
  have "(\<exists>a b. (a, b) \<in> set (pattern_matches p sent)) \<longleftrightarrow> pattern_matches p sent \<noteq> []" for p
    by (cases "pattern_matches p sent") auto
  then show ?thesis by (simp add: list_ex_iff)
qed

lemma filter_strict:
  assumes "rules M = [(''STRICT_COMPARISON'', strict_patterns), (''IMPLICIT_COMPARISON'', implicit_patterns)]"
  shows "filter (\<lambda>m. fst m = ''STRICT_COMPARISON'') (Matcher_call M sent) \<noteq> [] \<longleftrightarrow> strict_match sent"
proof -
  have "filter (\<lambda>m. fst m = ''STRICT_COMPARISON'') (Matcher_call M sent) \<noteq> [] \<longleftrightarrow>
        (\<exists>a b. (''STRICT_COMPARISON'', a, b) \<in> set (Matcher_call M sent))"
    by (force simp add: filter_empty_conv)
  also have "\<dots> \<longleftrightarrow> (\<exists>p \<in> set strict_patterns. \<exists>a b. (a, b) \<in> set (pattern_matches p sent))"
    unfolding two_rules_mem [OF assms] by auto
  finally show ?thesis by (simp only: some_match strict_match_def)
qed

lemma filter_implicit:
  assumes "rules M = [(''STRICT_COMPARISON'', strict_patterns), (''IMPLICIT_COMPARISON'', implicit_patterns)]"
  shows "filter (\<lambda>m. fst m = ''IMPLICIT_COMPARISON'') (Matcher_call M sent) \<noteq> [] \<longleftrightarrow> implicit_match sent"
proof -
  have "filter (\<lambda>m. fst m = ''IMPLICIT_COMPARISON'') (Matcher_call M sent) \<noteq> [] \<longleftrightarrow>
        (\<exists>a b. (''IMPLICIT_COMPARISON'', a, b) \<in> set (Matcher_call M sent))"
    by (force simp add: filter_empty_conv)
  also have "\<dots> \<longleftrightarrow> (\<exists>p \<in> set implicit_patterns. \<exists>a b. (a, b) \<in> set (pattern_matches p sent))"
    unfolding two_rules_mem [OF assms] by auto
  finally show ?thesis by (simp only: some_match implicit_match_def)
qed

lemma matches_empty:
  assumes "rules M = [(''STRICT_COMPARISON'', strict_patterns), (''IMPLICIT_COMPARISON'', implicit_patterns)]"
  shows "Matcher_call M sent = [] \<longleftrightarrow> \<not> strict_match sent \<and> \<not> implicit_match sent"
proof -
  have "Matcher_call M sent \<noteq> [] \<longleftrightarrow> (\<exists>k a b. (k, a, b) \<in> set (Matcher_call M sent))"
    by (cases "Matcher_call M sent") auto
  also have "\<dots> \<longleftrightarrow> (\<exists>p \<in> set strict_patterns. \<exists>a b. (a, b) \<in> set (pattern_matches p sent))
                 \<or> (\<exists>p \<in> set implicit_patterns. \<exists>a b. (a, b) \<in> set (pattern_matches p sent))"
    unfolding two_rules_mem [OF assms] by blast
  finally show ?thesis by (simp only: some_match strict_match_def implicit_match_def) blast
qed

lemma scan_sents_step:
  assumes M: "rules M = [(''STRICT_COMPARISON'', strict_patterns), (''IMPLICIT_COMPARISON'', implicit_patterns)]"
    and "''STRICT_COMPARISON'' \<in> set strings" "''IMPLICIT_COMPARISON'' \<in> set strings"
  shows "scan_sents strings M (sent # rest) =
     (if strict_match sent then Inr (True, ''STRICT_COMPARISON'')
      else if implicit_match sent then Inr (True, ''IMPLICIT_COMPARISON'')
      else scan_sents strings M rest)"
proof -
  have "\<forall>m \<in> set (Matcher_call M sent). fst m \<in> set strings"
    using assms(2,3) two_rules_mem [OF M, of _ _ _ sent] by auto
  then have "resolve_matches strings (Matcher_call M sent) = Inr (Matcher_call M sent)"
    by (rule resolve_matches_interned)
  then have step: "scan_sents strings M (sent # rest) =
     (if Matcher_call M sent = [] then scan_sents strings M rest
      else if filter (\<lambda>m. fst m = ''STRICT_COMPARISON'') (Matcher_call M sent) \<noteq> []
           then Inr (True, ''STRICT_COMPARISON'')
      else if filter (\<lambda>m. fst m = ''IMPLICIT_COMPARISON'') (Matcher_call M sent) \<noteq> []
           then Inr (True, ''IMPLICIT_COMPARISON'')
      else scan_sents strings M rest)"
    by (simp add: Let_def)
  show ?thesis
    unfolding step filter_strict [OF M] filter_implicit [OF M] matches_empty [OF M] by simp
qed

lemma scan_sents_verdict:
  assumes M: "rules M = [(''STRICT_COMPARISON'', strict_patterns), (''IMPLICIT_COMPARISON'', implicit_patterns)]"
    and "''STRICT_COMPARISON'' \<in> set strings" "''IMPLICIT_COMPARISON'' \<in> set strings"
  shows "scan_sents strings M ss = Inr (first_match_verdict ss)"
proof (induction ss)
  case Nil
  show ?case by (simp add: first_match_verdict_def)
next
  case (Cons sent rest)
  show ?case
    unfolding scan_sents_step [OF assms] Cons.IH
    by (simp add: first_match_verdict_def)
qed

lemma detect_comparison_eq:
  "detect_comparison nlp strings s =
     (Inr (first_match_verdict (sents (nlp s))), snd (comparison_matcher strings))"
proof -
  obtain M strings' where c: "comparison_matcher strings = (M, strings')"
    by (cases "comparison_matcher strings")
  have "rules M = [(''STRICT_COMPARISON'', strict_patterns), (''IMPLICIT_COMPARISON'', implicit_patterns)]"
    using comparison_matcher_rules [of strings] c by simp
  moreover have "''STRICT_COMPARISON'' \<in> set strings'" "''IMPLICIT_COMPARISON'' \<in> set strings'"
    using comparison_matcher_interned [of strings] c by simp_all
  ultimately have "scan_sents strings' M ss = Inr (first_match_verdict ss)" for ss
    by (rule scan_sents_verdict)
  then show ?thesis
    by (simp add: detect_comparison_def c)
qed

lemma verdict_first:
  "\<forall>p \<in> set pre. \<not> strict_match p \<and> \<not> implicit_match p \<Longrightarrow>
   strict_match sent \<or> implicit_match sent \<Longrightarrow>
   first_match_verdict (pre @ sent # post) =
     (True, if strict_match sent then ''STRICT_COMPARISON'' else ''IMPLICIT_COMPARISON'')"
  unfolding first_match_verdict_def by (induction pre) auto

lemma verdict_none:
  "\<forall>sent \<in> set ss. \<not> strict_match sent \<and> \<not> implicit_match sent \<Longrightarrow>
   first_match_verdict ss = (False, '''')"
  unfolding first_match_verdict_def by (induction ss) auto

lemma verdict_label:
  "\<exists>b l. first_match_verdict ss = (b, l)
      \<and> (l = ''STRICT_COMPARISON'' \<or> l = ''IMPLICIT_COMPARISON'' \<or> l = '''')
      \<and> (b \<longleftrightarrow> l \<noteq> '''')"
  unfolding first_match_verdict_def by (simp split: option.split)


subsection \<open>Matches of one pattern\<close>

lemma pattern_matches_empty_iff:
  "pattern_matches p sent = [] \<longleftrightarrow>
     (\<forall>i < length sent. \<forall>n \<in> set (match_lens token_matches p (drop i sent)). n = 0)"
  unfolding pattern_matches_def by (auto simp add: filter_empty_conv)

lemma leading_fail:
  assumes "\<forall>t \<in> set sent. \<not> token_matches c t"
  shows "pattern_matches ((c, Exactly1) # p) sent = []"
  unfolding pattern_matches_empty_iff
proof (intro allI impI)
  fix i assume i: "i < length sent"
  then have "drop i sent = sent ! i # drop (Suc i) sent"
    by (simp add: Cons_nth_drop_Suc)
  moreover from i assms have "\<not> token_matches c (sent ! i)" by simp
  ultimately show "\<forall>n \<in> set (match_lens token_matches ((c, Exactly1) # p) (drop i sent)). n = 0"
    by simp
qed

lemma single_matches:
  "pattern_matches [(c, Exactly1)] sent \<noteq> [] \<longleftrightarrow> (\<exists>t \<in> set sent. token_matches c t)"
proof
  assume "pattern_matches [(c, Exactly1)] sent \<noteq> []"
  then show "\<exists>t \<in> set sent. token_matches c t"
    using leading_fail [of sent c "[]"] by blast
next
  assume "\<exists>t \<in> set sent. token_matches c t"
  then obtain i where i: "i < length sent" and t: "token_matches c (sent ! i)"
    by (auto simp add: in_set_conv_nth)
  from i have "drop i sent = sent ! i # drop (Suc i) sent"
    by (simp add: Cons_nth_drop_Suc)
  with t have "Suc 0 \<in> set (match_lens token_matches [(c, Exactly1)] (drop i sent))"
    by simp
  with i show "pattern_matches [(c, Exactly1)] sent \<noteq> []"
    unfolding pattern_matches_empty_iff by (metis nat.distinct(1))
qed

lemma standalone_matches:
  "pattern_matches standalone_pattern sent \<noteq> [] \<longleftrightarrow>
     (\<exists>t \<in> set sent. (tok_tag t = ''JJR'' \<or> tok_tag t = ''JJS'')
        \<and> lower (tok_text t) \<noteq> ''most'' \<and> lower (tok_text t) \<noteq> ''least'')"
  unfolding standalone_pattern_def single_matches
  by (simp add: token_matches_def)

subsection \<open>Capitalisation\<close>

lemma match_lens_related:
  "\<forall>c x y. ok c \<longrightarrow> R x y \<longrightarrow> sat c y = sat c x \<Longrightarrow>
   list_all (\<lambda>(c, q). ok c) p \<Longrightarrow> list_all2 R xs ys \<Longrightarrow>
   match_lens sat p ys = match_lens sat p xs"
proof (induction sat p xs arbitrary: ys rule: match_lens.induct)
  case (1 sat xs)
  show ?case by simp
next
  case (2 sat c p)
  then show ?case by simp
next
  case (3 sat c p x xs)
  from "3.prems"(3) obtain y ys' where ys: "ys = y # ys'" "R x y" "list_all2 R xs ys'"
    by (auto simp add: list_all2_Cons1)
  with "3.prems"(1,2) have "sat c y = sat c x" by simp
  with 3 ys show ?case by simp
next
  case (4 sat c p)
  then show ?case by simp
next
  case (5 sat c p x xs)
  from "5.prems"(3) obtain y ys' where ys: "ys = y # ys'" "R x y" "list_all2 R xs ys'"
    by (auto simp add: list_all2_Cons1)
  with "5.prems"(1,2) have "sat c y = sat c x" by simp
  with 5 ys show ?case by simp
next
  case (6 sat c p)
  then show ?case by simp
next
  case (7 sat c p x xs)
  from "7.prems"(3) obtain y ys' where ys: "ys = y # ys'" "R x y" "list_all2 R xs ys'"
    by (auto simp add: list_all2_Cons1)
  with "7.prems"(1,2) have "sat c y = sat c x" by simp
  with 7 ys show ?case by simp
next
  case (8 sat c p)
  then show ?case by simp
next
  case (9 sat c p x xs)
  from "9.prems"(3) obtain y ys' where ys: "ys = y # ys'" "R x y" "list_all2 R xs ys'"
    by (auto simp add: list_all2_Cons1)
  with "9.prems"(1,2) have "sat c y = sat c x" by simp
  with 9 ys show ?case by simp
qed

lemma attr_value_case:
  "case_variant t t' \<Longrightarrow> a \<noteq> ORTH \<Longrightarrow> attr_value a t' = attr_value a t"
proof (cases a)
  case LOWER
  assume "case_variant t t'"
  then show ?thesis using LOWER by (simp add: case_variant_def)
next
  case POS
  assume "case_variant t t'"
  then have "tok_pos t' = tok_pos (t\<lparr>tok_text := tok_text t'\<rparr>)" by (simp add: case_variant_def)
  then show ?thesis using POS by simp
next
  case TAG
  assume "case_variant t t'"
  then have "tok_tag t' = tok_tag (t\<lparr>tok_text := tok_text t'\<rparr>)" by (simp add: case_variant_def)
  then show ?thesis using TAG by simp
next
  case LEMMA
  assume "case_variant t t'"
  then have "tok_lemma t' = tok_lemma (t\<lparr>tok_text := tok_text t'\<rparr>)" by (simp add: case_variant_def)
  then show ?thesis using LEMMA by simp
qed simp

lemma token_matches_case:
  assumes "list_all (\<lambda>(a, p). a \<noteq> ORTH) spec" "case_variant t t'"
  shows "token_matches spec t' = token_matches spec t"
proof -
  have "pred_holds p (attr_value a t') = pred_holds p (attr_value a t)" if "(a, p) \<in> set spec" for a p
    using that assms attr_value_case [of t t' a] by (auto simp add: list_all_iff)
  then show ?thesis
    unfolding token_matches_def list_all_iff by auto
qed

lemma pattern_matches_case:
  assumes p: "list_all (\<lambda>(spec, q). list_all (\<lambda>(a, p). a \<noteq> ORTH) spec) p"
    and s: "list_all2 case_variant sent sent'"
  shows "pattern_matches p sent' = pattern_matches p sent"
proof -
  have "match_lens token_matches p (drop i sent') = match_lens token_matches p (drop i sent)" for i
  proof (rule match_lens_related [where R = case_variant and ok = "\<lambda>spec. list_all (\<lambda>(a, p). a \<noteq> ORTH) spec"])
    show "\<forall>c x y. list_all (\<lambda>(a, p). a \<noteq> ORTH) c \<longrightarrow> case_variant x y \<longrightarrow> token_matches c y = token_matches c x"
      using token_matches_case by blast
    show "list_all (\<lambda>(c, q). list_all (\<lambda>(a, p). a \<noteq> ORTH) c) p" by (rule p)
    show "list_all2 case_variant (drop i sent) (drop i sent')"
      using s by (rule list_all2_dropI)
  qed
  moreover have "length sent' = length sent"
    using s by (simp add: list_all2_lengthD)
  ultimately show ?thesis
    by (simp add: pattern_matches_def)
qed

lemma patterns_never_read_orth:
  "list_all (\<lambda>p. list_all (\<lambda>(spec, q). list_all (\<lambda>(a, p). a \<noteq> ORTH) spec) p)
     (strict_patterns @ implicit_patterns)"
  by (simp add: strict_patterns_def implicit_patterns_def standalone_pattern_def)

lemma matches_case:
  assumes "list_all2 case_variant sent sent'"
  shows "strict_match sent' = strict_match sent" "implicit_match sent' = implicit_match sent"
proof -
  have "pattern_matches p sent' = pattern_matches p sent"
    if "p \<in> set (strict_patterns @ implicit_patterns)" for p
    using that patterns_never_read_orth assms
    by (intro pattern_matches_case) (auto simp add: list_all_iff)
  then show "strict_match sent' = strict_match sent" "implicit_match sent' = implicit_match sent"
    by (simp_all add: strict_match_def implicit_match_def list_ex_iff)
qed

lemma verdict_case:
  "list_all2 (list_all2 case_variant) ss ss' \<Longrightarrow> first_match_verdict ss' = first_match_verdict ss"
  unfolding first_match_verdict_def
  by (induction ss ss' rule: list_all2_induct) (auto simp add: matches_case)

subsection \<open>Whitespace\<close>

lemma isspace_lower: "isspace c \<Longrightarrow> lower_char c = c"
  by (auto simp add: isspace_def lower_char_def Let_def)

lemma blank_lower: "blank s \<Longrightarrow> lower s = s"
  by (simp add: blank_def lower_def list_all_iff isspace_lower map_idI)

lemma blank_anchor:
  "blank s \<Longrightarrow> lower s \<noteq> ''as'' \<and> lower s \<noteq> ''more'' \<and> lower s \<noteq> ''less''"
proof -
  assume b: "blank s"
  have "\<not> blank ''as''" "\<not> blank ''more''" "\<not> blank ''less''"
    by (simp_all add: blank_def isspace_def)
  with b show ?thesis
    by (auto simp add: blank_lower)
qed

lemma whitespace_no_match:
  assumes "\<forall>t \<in> set sent. tok_tag t = ''_SP'' \<and> blank (tok_text t)"
  shows "\<not> strict_match sent \<and> \<not> implicit_match sent"
proof -
  have tag: "\<forall>t \<in> set sent. tok_tag t = ''_SP''"
    and low: "\<forall>t \<in> set sent. lower (tok_text t) \<noteq> ''as'' \<and> lower (tok_text t) \<noteq> ''more''
                \<and> lower (tok_text t) \<noteq> ''less''"
    using assms blank_anchor by blast+
  have "pattern_matches ((c, Exactly1) # p) sent = []"
    if "\<forall>t \<in> set sent. \<not> token_matches c t" for c p
    using that by (rule leading_fail)
  then show ?thesis
    using tag low
    by (simp add: strict_match_def implicit_match_def strict_patterns_def implicit_patterns_def
        standalone_pattern_def token_matches_def)
qed


subsection \<open>The scan over the sentences\<close>

text \<open>
  Claim C2. \<^verbatim>\<open>detect_comparison\<close> raises nothing and returns the verdict of the first sentence,
  in document order, in which any pattern matches: after sentences without a match, a
  sentence with a strict match gives \<^verbatim>\<open>(True, "STRICT_COMPARISON")\<close> whatever implicit matches
  it has, a sentence with implicit matches only gives \<^verbatim>\<open>(True, "IMPLICIT_COMPARISON")\<close>, and
  the sentences after it have no part in the result; a text in which no sentence matches
  gives \<^verbatim>\<open>(False, "")\<close>. The label is one of the two names or empty, and the boolean is true
  exactly when the label is not empty.
\<close>

theorem detect_comparison_first_match:
  "fst (detect_comparison nlp strings s) = Inr (first_match_verdict (sents (nlp s)))
   \<and> (sents (nlp s) = pre @ sent # post
        \<and> (\<forall>p \<in> set pre. \<not> strict_match p \<and> \<not> implicit_match p)
        \<and> (strict_match sent \<or> implicit_match sent)
      \<longrightarrow> fst (detect_comparison nlp strings s) =
            Inr (True, if strict_match sent then ''STRICT_COMPARISON'' else ''IMPLICIT_COMPARISON''))
   \<and> ((\<forall>sent \<in> set (sents (nlp s)). \<not> strict_match sent \<and> \<not> implicit_match sent)
      \<longrightarrow> fst (detect_comparison nlp strings s) = Inr (False, ''''))
   \<and> (\<exists>b l. fst (detect_comparison nlp strings s) = Inr (b, l)
        \<and> (l = ''STRICT_COMPARISON'' \<or> l = ''IMPLICIT_COMPARISON'' \<or> l = '''')
        \<and> (b \<longleftrightarrow> l \<noteq> ''''))"
proof (intro conjI impI)
  show "fst (detect_comparison nlp strings s) = Inr (first_match_verdict (sents (nlp s)))"
    by (simp add: detect_comparison_eq)
next
  assume "sents (nlp s) = pre @ sent # post
        \<and> (\<forall>p \<in> set pre. \<not> strict_match p \<and> \<not> implicit_match p)
        \<and> (strict_match sent \<or> implicit_match sent)"
  then show "fst (detect_comparison nlp strings s) =
            Inr (True, if strict_match sent then ''STRICT_COMPARISON'' else ''IMPLICIT_COMPARISON'')"
    using verdict_first [of pre sent post] by (simp add: detect_comparison_eq)
next
  assume "\<forall>sent \<in> set (sents (nlp s)). \<not> strict_match sent \<and> \<not> implicit_match sent"
  then show "fst (detect_comparison nlp strings s) = Inr (False, '''')"
    by (simp add: detect_comparison_eq verdict_none)
next
  show "\<exists>b l. fst (detect_comparison nlp strings s) = Inr (b, l)
        \<and> (l = ''STRICT_COMPARISON'' \<or> l = ''IMPLICIT_COMPARISON'' \<or> l = '''')
        \<and> (b \<longleftrightarrow> l \<noteq> '''')"
    using verdict_label [of "sents (nlp s)"] by (simp add: detect_comparison_eq)
qed

theorem detect_comparison_first_match_witness:
  "strict_match sent_pain \<and> implicit_match sent_pain
   \<and> fst (detect_comparison nlp_example [] ''This causes more pain than before.'')
       = Inr (True, ''STRICT_COMPARISON'')
   \<and> \<not> strict_match sent_best \<and> implicit_match sent_best
   \<and> fst (detect_comparison nlp_example []
        ''The sky is blue. This is the best idea ever. This causes more pain than before.'')
       = Inr (True, ''IMPLICIT_COMPARISON'')
   \<and> fst (detect_comparison nlp_example [] ''The sky is blue.'') = Inr (False, '''')"
proof -
  let ?one = "''This causes more pain than before.''"
  let ?three = "''The sky is blue. This is the best idea ever. This causes more pain than before.''"
  let ?none = "''The sky is blue.''"
  have sky: "\<not> strict_match sent_sky \<and> \<not> implicit_match sent_sky" by code_simp
  have best: "\<not> strict_match sent_best \<and> implicit_match sent_best" by code_simp
  have pain: "strict_match sent_pain \<and> implicit_match sent_pain" by code_simp
  have s1: "sents (nlp_example ?one) = [] @ sent_pain # []" by code_simp
  have s3: "sents (nlp_example ?three) = [sent_sky] @ sent_best # [sent_pain]" by code_simp
  have s0: "sents (nlp_example ?none) = [sent_sky]" by code_simp
  have "fst (detect_comparison nlp_example [] ?one) = Inr (True, ''STRICT_COMPARISON'')"
    using detect_comparison_first_match
        [of nlp_example "[]" ?one "[]" sent_pain "[]", THEN conjunct2, THEN conjunct1]
      pain s1
    by simp
  moreover have "fst (detect_comparison nlp_example [] ?three) = Inr (True, ''IMPLICIT_COMPARISON'')"
    using detect_comparison_first_match
        [of nlp_example "[]" ?three "[sent_sky]" sent_best "[sent_pain]", THEN conjunct2, THEN conjunct1]
      sky best s3
    by simp
  moreover have "fst (detect_comparison nlp_example [] ?none) = Inr (False, [])"
    using detect_comparison_first_match
        [of nlp_example "[]" ?none, THEN conjunct2, THEN conjunct2, THEN conjunct1]
      sky s0
    by simp
  ultimately show ?thesis
    using best pain by simp
qed

subsection \<open>The standalone comparative\<close>

text \<open>
  Claim C4. A single token tagged \<^verbatim>\<open>JJR\<close> or \<^verbatim>\<open>JJS\<close> matches the standalone implicit pattern
  exactly when its lower-cased text is neither \<^verbatim>\<open>most\<close> nor \<^verbatim>\<open>least\<close>. So for a text of one
  sentence in which every token with one of these tags is such a word, and in which no
  strict pattern and no other implicit pattern matches, as in \<^verbatim>\<open>Most people agree.\<close>, the
  detector returns \<^verbatim>\<open>(False, "")\<close>.
\<close>

theorem standalone_excludes_most_least:
  "(tok_tag t = ''JJR'' \<or> tok_tag t = ''JJS'' \<longrightarrow>
      (pattern_matches standalone_pattern [t] \<noteq> []
       \<longleftrightarrow> lower (tok_text t) \<noteq> ''most'' \<and> lower (tok_text t) \<noteq> ''least''))
   \<and> (sents (nlp s) = [sent]
        \<and> (\<forall>t \<in> set sent. tok_tag t = ''JJR'' \<or> tok_tag t = ''JJS''
              \<longrightarrow> lower (tok_text t) = ''most'' \<or> lower (tok_text t) = ''least'')
        \<and> \<not> strict_match sent
        \<and> (\<forall>p \<in> set implicit_patterns. p \<noteq> standalone_pattern \<longrightarrow> pattern_matches p sent = [])
      \<longrightarrow> fst (detect_comparison nlp strings s) = Inr (False, ''''))"
proof (intro conjI impI)
  assume "tok_tag t = ''JJR'' \<or> tok_tag t = ''JJS''"
  then show "pattern_matches standalone_pattern [t] \<noteq> []
       \<longleftrightarrow> lower (tok_text t) \<noteq> ''most'' \<and> lower (tok_text t) \<noteq> ''least''"
    by (simp add: standalone_matches)
next
  assume "sents (nlp s) = [sent]
        \<and> (\<forall>t \<in> set sent. tok_tag t = ''JJR'' \<or> tok_tag t = ''JJS''
              \<longrightarrow> lower (tok_text t) = ''most'' \<or> lower (tok_text t) = ''least'')
        \<and> \<not> strict_match sent
        \<and> (\<forall>p \<in> set implicit_patterns. p \<noteq> standalone_pattern \<longrightarrow> pattern_matches p sent = [])"
  then have one: "sents (nlp s) = [sent]"
    and words: "\<forall>t \<in> set sent. tok_tag t = ''JJR'' \<or> tok_tag t = ''JJS''
              \<longrightarrow> lower (tok_text t) = ''most'' \<or> lower (tok_text t) = ''least''"
    and strict: "\<not> strict_match sent"
    and others: "\<forall>p \<in> set implicit_patterns. p \<noteq> standalone_pattern \<longrightarrow> pattern_matches p sent = []"
    by simp_all
  have "\<not> (\<exists>t \<in> set sent. (tok_tag t = ''JJR'' \<or> tok_tag t = ''JJS'')
        \<and> lower (tok_text t) \<noteq> ''most'' \<and> lower (tok_text t) \<noteq> ''least'')"
    using words by auto
  then have alone: "pattern_matches standalone_pattern sent = []"
    unfolding standalone_matches [symmetric] by simp
  have "pattern_matches p sent = []" if "p \<in> set implicit_patterns" for p
    using that others alone by (cases "p = standalone_pattern") simp_all
  then have "\<not> implicit_match sent"
    by (simp add: implicit_match_def list_ex_iff)
  with one strict show "fst (detect_comparison nlp strings s) = Inr (False, [])"
    by (simp add: detect_comparison_eq verdict_none)
qed

theorem standalone_excludes_most_least_witness:
  "pattern_matches standalone_pattern [hd sent_most] = []
   \<and> pattern_matches standalone_pattern [sent_best ! 3] \<noteq> []
   \<and> fst (detect_comparison nlp_example [] ''Most people agree.'') = Inr (False, '''')"
proof -
  let ?s = "''Most people agree.''"
  have "tok_tag (hd sent_most) = ''JJS''" "lower (tok_text (hd sent_most)) = ''most''"
    "tok_tag (sent_best ! 3) = ''JJS''" "lower (tok_text (sent_best ! 3)) = ''best''"
    by code_simp+
  moreover have "sents (nlp_example ?s) = [sent_most]" by code_simp
  moreover have "\<forall>t \<in> set sent_most. tok_tag t = ''JJR'' \<or> tok_tag t = ''JJS''
              \<longrightarrow> lower (tok_text t) = ''most'' \<or> lower (tok_text t) = ''least''"
    by code_simp
  moreover have "\<not> strict_match sent_most" by code_simp
  moreover have "\<forall>p \<in> set implicit_patterns. p \<noteq> standalone_pattern \<longrightarrow> pattern_matches p sent_most = []"
    by code_simp
  ultimately show ?thesis
    using standalone_excludes_most_least [of "hd sent_most", THEN conjunct1]
      standalone_excludes_most_least [of "sent_best ! 3", THEN conjunct1]
      standalone_excludes_most_least [of _ nlp_example ?s sent_most "[]", THEN conjunct2]
    by simp
qed


subsection \<open>Capitalisation of the anchors\<close>

text \<open>
  Claim C9. No constraint of a strict or implicit pattern reads the verbatim text: the
  anchors \<^verbatim>\<open>as\<close>, \<^verbatim>\<open>than\<close>, \<^verbatim>\<open>more\<close> and \<^verbatim>\<open>less\<close> are compared with \<^verbatim>\<open>LOWER\<close>, the lower-cased text. So two
  sentences whose tokens differ in capitalisation at most have the same matches of every
  strict and implicit pattern, at the same positions, and two texts whose sentences so
  correspond get the same result. The capitalised \<^verbatim>\<open>More\<close> of \<^verbatim>\<open>More money than sense\<close> matches
  the strict pattern of \<^verbatim>\<open>more\<close> or \<^verbatim>\<open>less\<close>, a noun and \<^verbatim>\<open>than\<close> as the lower-case word does.
\<close>

theorem anchors_ignore_case:
  "list_all (\<lambda>p. list_all (\<lambda>(spec, q). list_all (\<lambda>(a, v). a \<noteq> ORTH) spec) p)
     (strict_patterns @ implicit_patterns)
   \<and> (list_all2 case_variant sent sent' \<longrightarrow>
      (\<forall>p \<in> set (strict_patterns @ implicit_patterns).
          pattern_matches p sent' = pattern_matches p sent)
      \<and> strict_match sent' = strict_match sent \<and> implicit_match sent' = implicit_match sent)
   \<and> (list_all2 (list_all2 case_variant) (sents (nlp s)) (sents (nlp' s')) \<longrightarrow>
        fst (detect_comparison nlp' strings s') = fst (detect_comparison nlp strings s))"
proof (intro conjI impI ballI)
  show "list_all (\<lambda>p. list_all (\<lambda>(spec, q). list_all (\<lambda>(a, v). a \<noteq> ORTH) spec) p)
     (strict_patterns @ implicit_patterns)"
    by (rule patterns_never_read_orth)
next
  fix p
  assume "list_all2 case_variant sent sent'" "p \<in> set (strict_patterns @ implicit_patterns)"
  then show "pattern_matches p sent' = pattern_matches p sent"
    using patterns_never_read_orth
    by (intro pattern_matches_case) (auto simp add: list_all_iff)
next
  assume "list_all2 case_variant sent sent'"
  then show "strict_match sent' = strict_match sent" "implicit_match sent' = implicit_match sent"
    by (rule matches_case)+
next
  assume "list_all2 (list_all2 case_variant) (sents (nlp s)) (sents (nlp' s'))"
  then show "fst (detect_comparison nlp' strings s') = fst (detect_comparison nlp strings s)"
    by (simp add: detect_comparison_eq verdict_case)
qed

theorem anchors_ignore_case_witness:
  "pattern_matches (strict_patterns ! 3) (sent_money ''More'') = [(0, 3)]
   \<and> pattern_matches (strict_patterns ! 3) (sent_money ''more'') = [(0, 3)]
   \<and> fst (detect_comparison nlp_example [] ''More money than sense'') = Inr (True, ''STRICT_COMPARISON'')
   \<and> fst (detect_comparison nlp_example [] ''more money than sense'') = Inr (True, ''STRICT_COMPARISON'')"
proof -
  let ?lo = "''more money than sense''" and ?up = "''More money than sense''"
  have v: "list_all2 case_variant (sent_money ''more'') (sent_money ''More'')"
    by code_simp
  have d: "list_all2 (list_all2 case_variant) (sents (nlp_example ?lo)) (sents (nlp_example ?up))"
    by code_simp
  have m: "strict_patterns ! 3 \<in> set (strict_patterns @ implicit_patterns)"
    by code_simp
  have lo: "pattern_matches (strict_patterns ! 3) (sent_money ''more'') = [(0, 3)]"
    by code_simp
  have r: "fst (detect_comparison nlp_example [] ?lo) = Inr (True, ''STRICT_COMPARISON'')"
    by code_simp
  have "pattern_matches (strict_patterns ! 3) (sent_money ''More'')
        = pattern_matches (strict_patterns ! 3) (sent_money ''more'')"
    using anchors_ignore_case
        [of "sent_money ''more''" "sent_money ''More''", THEN conjunct2, THEN conjunct1] v m
    by blast
  moreover have "fst (detect_comparison nlp_example [] ?up) = fst (detect_comparison nlp_example [] ?lo)"
    using anchors_ignore_case
        [of _ _ nlp_example ?lo nlp_example ?up "[]", THEN conjunct2, THEN conjunct2] d
    by blast
  ultimately show ?thesis
    using lo r by simp
qed

subsection \<open>The empty text and the texts of whitespace\<close>

lemma blank_doc_tokens:
  assumes "blank s" "tokenizes s d" "tags_whitespace d"
  shows "\<forall>t \<in> set (tokens d). tok_tag t = ''_SP'' \<and> blank (tok_text t) \<and> \<not> tok_is_alpha t"
proof
  fix t assume t: "t \<in> set (tokens d)"
  with assms(2) have "sublist (tok_text t) s"
    by (simp add: tokenizes_def list_all_iff)
  then have "set (tok_text t) \<subseteq> set s" by (rule set_mono_sublist)
  with assms(1) have "blank (tok_text t)"
    by (auto simp add: blank_def list_all_iff)
  with assms(3) t show "tok_tag t = ''_SP'' \<and> blank (tok_text t) \<and> \<not> tok_is_alpha t"
    by (auto simp add: tags_whitespace_def list_all_iff)
qed

lemma blank_doc_results:
  assumes "blank s" "tokenizes s (nlp s)" "tags_whitespace (nlp s)"
  shows "is_valid_claim nlp s = Inr False"
    and "fst (detect_comparison nlp strings s) = Inr (False, [])"
proof -
  note w = blank_doc_tokens [OF assms]
  then have "filter tok_is_alpha (tokens (nlp s)) = []"
    by (simp add: filter_empty_conv)
  then have "\<not> mostly_alphabetic (nlp s)"
    by (simp add: mostly_alphabetic_def)
  then show "is_valid_claim nlp s = Inr False"
    by (simp add: is_valid_claim_eq)
  have "\<not> strict_match sent \<and> \<not> implicit_match sent" if "sent \<in> set (sents (nlp s))" for sent
  proof (rule whitespace_no_match)
    from that assms(2) have "set sent \<subseteq> set (tokens (nlp s))"
      by (auto simp add: tokenizes_def list_all_iff)
    with w show "\<forall>t \<in> set sent. tok_tag t = ''_SP'' \<and> blank (tok_text t)"
      by blast
  qed
  then show "fst (detect_comparison nlp strings s) = Inr (False, [])"
    by (simp add: detect_comparison_eq verdict_none)
qed

text \<open>
  Claim C5. Neither function raises, on any text: the divisor of the alphabetic fraction
  is \<open>max 1 n\<close>, never zero, and the keys the detector looks up are interned. A doc with
  fewer than three tokens, so one with none, makes \<^verbatim>\<open>is_valid_claim\<close> return false, and a doc
  with no sentence makes \<^verbatim>\<open>detect_comparison\<close> return \<^verbatim>\<open>(False, "")\<close>. For the empty text and
  for every text of whitespace, an annotator that cuts its tokens out of the text and tags
  whitespace tokens \<^verbatim>\<open>_SP\<close>, not alphabetic, gives these two results.
\<close>

theorem blank_text_results:
  "(\<exists>b. is_valid_claim nlp s = Inr b)
   \<and> (\<exists>r. fst (detect_comparison nlp strings s) = Inr r)
   \<and> truediv a (max 1 n) \<noteq> Inl ZeroDivisionError
   \<and> (length (tokens (nlp s)) < 3 \<longrightarrow> is_valid_claim nlp s = Inr False)
   \<and> (sents (nlp s) = [] \<longrightarrow> fst (detect_comparison nlp strings s) = Inr (False, ''''))
   \<and> (blank s \<and> tokenizes s (nlp s) \<and> tags_whitespace (nlp s) \<longrightarrow>
        is_valid_claim nlp s = Inr False
        \<and> fst (detect_comparison nlp strings s) = Inr (False, ''''))"
proof (intro conjI impI)
  show "\<exists>b. is_valid_claim nlp s = Inr b"
    by (simp add: is_valid_claim_eq)
  show "\<exists>r. fst (detect_comparison nlp strings s) = Inr r"
    by (simp add: detect_comparison_eq)
  show "truediv a (max 1 n) \<noteq> Inl ZeroDivisionError"
    by (simp add: truediv_def)
next
  assume "length (tokens (nlp s)) < 3"
  then show "is_valid_claim nlp s = Inr False"
    by (simp add: is_valid_claim_eq min_length_def)
next
  assume "sents (nlp s) = []"
  then show "fst (detect_comparison nlp strings s) = Inr (False, '''')"
    by (simp add: detect_comparison_eq verdict_none)
next
  assume b: "blank s \<and> tokenizes s (nlp s) \<and> tags_whitespace (nlp s)"
  then show "is_valid_claim nlp s = Inr False"
    using blank_doc_results(1) [of s nlp] by simp
  from b show "fst (detect_comparison nlp strings s) = Inr (False, '''')"
    using blank_doc_results(2) [of s nlp strings] by simp
qed

theorem blank_text_results_witness:
  "blank '''' \<and> blank ''  ''
   \<and> is_valid_claim nlp_example '''' = Inr False
   \<and> fst (detect_comparison nlp_example [] '''') = Inr (False, '''')
   \<and> length (tokens (nlp_example ''  '')) = 1
   \<and> is_valid_claim nlp_example ''  '' = Inr False
   \<and> fst (detect_comparison nlp_example [] ''  '') = Inr (False, '''')"
proof -
  have e: "blank '''' \<and> tokenizes '''' (nlp_example '''') \<and> tags_whitespace (nlp_example '''')"
    by code_simp
  have "sublist ''  '' ''  ''" by simp
  moreover have "tokens (nlp_example ''  '') = sent_space" "sents (nlp_example ''  '') = [sent_space]"
    by code_simp+
  moreover have "blank ''  ''" by code_simp
  ultimately have w: "blank ''  '' \<and> tokenizes ''  '' (nlp_example ''  '')
      \<and> tags_whitespace (nlp_example ''  '')"
    by (simp add: tokenizes_def tags_whitespace_def sent_space_def tk_def)
  have "length (tokens (nlp_example ''  '')) = 1" by code_simp
  then show ?thesis
    using blank_text_results [of nlp_example "''''" "[]"] blank_text_results [of nlp_example "''  ''" "[]"]
      e w
    by simp
qed

subsection \<open>The registry\<close>

text \<open>
  Claim C7. The registry has exactly two entries, in this order: \<^verbatim>\<open>comparison\<close>, bound to the
  comparison detector, and \<^verbatim>\<open>other\<close>, bound to the placeholder; and the placeholder returns
  \<^verbatim>\<open>(False, "")\<close> on every text, touching nothing.
\<close>

theorem registry_two_entries:
  "map fst (CATEGORY_FUNCTIONS nlp) = [''comparison'', ''other'']
   \<and> map_of (CATEGORY_FUNCTIONS nlp) ''comparison'' = Some (detect_comparison nlp)
   \<and> map_of (CATEGORY_FUNCTIONS nlp) ''other'' = Some detect_other
   \<and> (\<forall>strings s. detect_other strings s = (Inr (False, ''''), strings))"
  by (simp add: CATEGORY_FUNCTIONS_def detect_other_def)

theorem registry_two_entries_witness:
  "length (CATEGORY_FUNCTIONS nlp_example) = 2
   \<and> map_of (CATEGORY_FUNCTIONS nlp_example) ''other'' = Some detect_other
   \<and> detect_other [] ''This causes more pain than before.'' = (Inr (False, ''''), [])"
proof -
  have "length (CATEGORY_FUNCTIONS nlp_example) = length (map fst (CATEGORY_FUNCTIONS nlp_example))"
    by simp
  then show ?thesis
    using registry_two_entries [of nlp_example] by simp
qed

subsection \<open>What is carried from call to call\<close>









end
